theory Spec2Isabelle
  imports Complex_Main
begin

section \<open>The board engine of \<^verbatim>\<open>game.py\<close>\<close>

text \<open>
  The classes \<^verbatim>\<open>Game\<close> and \<^verbatim>\<open>GameState\<close> carry the same three fields
  \<^verbatim>\<open>board\<close>, \<^verbatim>\<open>score\<close> and \<^verbatim>\<open>dim\<close> and textually identical methods
  \<^verbatim>\<open>compress\<close>, \<^verbatim>\<open>merge\<close>, \<^verbatim>\<open>move_left\<close>, \<^verbatim>\<open>move_down\<close>, \<^verbatim>\<open>move_up\<close>,
  \<^verbatim>\<open>move_right\<close>, \<^verbatim>\<open>rotate_board\<close> and \<^verbatim>\<open>simulate_move\<close>.  The record
  \<open>GameState\<close> holds the three fields; \<open>Game\<close> extends it by the goal, so that
  one definition on the record scheme embeds the method of both classes.
  A board is a list of rows of Python integers (unbounded, hence \<open>int\<close>); the
  methods mutate \<^verbatim>\<open>self\<close>, which the model passes in and returns.
\<close>

datatype py_error = IndexError | ValueError

record GameState =
  board :: "int list list"
  score :: int
  dim :: int

record Game = GameState +
  goal :: int

text \<open>
  \<^verbatim>\<open>GameState.__init__\<close>: the rows of the board are copied, so the new object
  holds the values of the cells and shares no list with its maker.
\<close>

definition GameState_init :: "int list list \<Rightarrow> int \<Rightarrow> int \<Rightarrow> GameState" where
  "GameState_init b sc d = \<lparr>board = b, score = sc, dim = d\<rparr>"

text \<open>\<^verbatim>\<open>compress\<close>: \<^verbatim>\<open>[num for num in row if num != 0]\<close>.\<close>

definition compress :: "int list \<Rightarrow> int list" where
  "compress row = filter (\<lambda>num. num \<noteq> 0) row"

text \<open>
  \<^verbatim>\<open>merge\<close>: the body of \<^verbatim>\<open>for i in range(len(row) - 1)\<close> on the pair of the
  row and the score of \<^verbatim>\<open>self\<close>.  The indices \<open>i\<close> and \<open>i + 1\<close> are below the
  length of the row for every \<open>i\<close> of the range, and the row keeps its length.
\<close>

definition merge_step :: "bool \<Rightarrow> nat \<Rightarrow> int list \<times> int \<Rightarrow> int list \<times> int" where
  "merge_step update_score i = (\<lambda>(row, sc).
     if row ! i = row ! (i + 1)
     then (row[i := row ! i * 2, i + 1 := 0],
           if update_score then sc + row ! i * 2 else sc)
     else (row, sc))"

definition merge :: "int list \<Rightarrow> bool \<Rightarrow> int \<Rightarrow> int list \<times> int" where
  "merge row update_score sc =
     fold (merge_step update_score) [0..<length row - 1] (row, sc)"

text \<open>
  The state of the loop of \<^verbatim>\<open>merge\<close> when it enters iteration \<open>i\<close>, and whether
  the test \<^verbatim>\<open>row[i] == row[i + 1]\<close> succeeds there.
\<close>

definition merge_upto :: "int list \<Rightarrow> bool \<Rightarrow> int \<Rightarrow> nat \<Rightarrow> int list \<times> int" where
  "merge_upto row update_score sc i = fold (merge_step update_score) [0..<i] (row, sc)"

definition merges_at :: "int list \<Rightarrow> nat \<Rightarrow> bool" where
  "merges_at row i =
     (i < length row - 1 \<and>
      (let cur = fst (merge_upto row False 0 i) in cur ! i = cur ! (i + 1)))"

text \<open>
  One iteration of the loop of \<^verbatim>\<open>move_left\<close>.  \<^verbatim>\<open>self.board[i]\<close> raises
  \<^verbatim>\<open>IndexError\<close> when the board has no row \<open>i\<close>; \<^verbatim>\<open>[0] * n\<close> is empty for a
  negative \<open>n\<close>.
\<close>

definition move_left_row ::
  "bool \<Rightarrow> nat \<Rightarrow> 'a GameState_scheme \<times> bool \<Rightarrow> py_error + ('a GameState_scheme \<times> bool)" where
  "move_left_row update_score i = (\<lambda>(s, moved).
     if length (board s) \<le> i then Inl IndexError
     else
       let original_row = board s ! i;
           compressed_row = compress original_row;
           (merged_row, sc) = merge compressed_row update_score (score s);
           merged_and_compressed_row = compress merged_row;
           new_row = merged_and_compressed_row
             @ replicate (nat (dim s - int (length merged_and_compressed_row))) 0
       in Inr (s\<lparr>board := (board s)[i := new_row], score := sc\<rparr>,
               moved \<or> original_row \<noteq> new_row))"

fun move_left_loop ::
  "bool \<Rightarrow> nat list \<Rightarrow> 'a GameState_scheme \<times> bool \<Rightarrow> py_error + ('a GameState_scheme \<times> bool)" where
  "move_left_loop update_score [] st = Inr st"
| "move_left_loop update_score (i # is) st =
     (case move_left_row update_score i st of
        Inl e \<Rightarrow> Inl e
      | Inr st' \<Rightarrow> move_left_loop update_score is st')"

text \<open>\<^verbatim>\<open>move_left\<close> returns \<^verbatim>\<open>moved\<close>; the model returns it with the new state.\<close>

definition move_left :: "bool \<Rightarrow> 'a GameState_scheme \<Rightarrow> py_error + (bool \<times> 'a GameState_scheme)" where
  "move_left update_score s =
     (case move_left_loop update_score [0..<nat (dim s)] (s, False) of
        Inl e \<Rightarrow> Inl e
      | Inr (s', moved) \<Rightarrow> Inr (moved, s'))"

text \<open>
  \<^verbatim>\<open>rotate_board\<close>: \<^verbatim>\<open>[list(row) for row in zip(*reversed(board))]\<close>.  \<^verbatim>\<open>zip\<close> of
  no argument is empty; otherwise it stops with its shortest argument, and its
  \<open>j\<close>-th tuple holds the \<open>j\<close>-th entry of every argument in turn.
\<close>

definition zip_star :: "'a list list \<Rightarrow> 'a list list" where
  "zip_star rows =
     (if rows = [] then []
      else map (\<lambda>j. map (\<lambda>row. row ! j) rows) [0..<Min (set (map length rows))])"

definition rotate_board :: "int list list \<Rightarrow> int list list" where
  "rotate_board b = zip_star (rev b)"

definition move_down :: "bool \<Rightarrow> 'a GameState_scheme \<Rightarrow> py_error + (bool \<times> 'a GameState_scheme)" where
  "move_down update_score s =
     (case move_left update_score (s\<lparr>board := rotate_board (board s)\<rparr>) of
        Inl e \<Rightarrow> Inl e
      | Inr (moved, s') \<Rightarrow>
          Inr (moved, s'\<lparr>board := rotate_board (rotate_board (rotate_board (board s')))\<rparr>))"

definition move_up :: "bool \<Rightarrow> 'a GameState_scheme \<Rightarrow> py_error + (bool \<times> 'a GameState_scheme)" where
  "move_up update_score s =
     (case move_left update_score
             (s\<lparr>board := rotate_board (rotate_board (rotate_board (board s)))\<rparr>) of
        Inl e \<Rightarrow> Inl e
      | Inr (moved, s') \<Rightarrow> Inr (moved, s'\<lparr>board := rotate_board (board s')\<rparr>))"

definition move_right :: "bool \<Rightarrow> 'a GameState_scheme \<Rightarrow> py_error + (bool \<times> 'a GameState_scheme)" where
  "move_right update_score s =
     (case move_left update_score (s\<lparr>board := rotate_board (rotate_board (board s))\<rparr>) of
        Inl e \<Rightarrow> Inl e
      | Inr (moved, s') \<Rightarrow>
          Inr (moved, s'\<lparr>board := rotate_board (rotate_board (board s'))\<rparr>))"

text \<open>
  The four directions, \<^verbatim>\<open>'left'\<close>, \<^verbatim>\<open>'right'\<close>, \<^verbatim>\<open>'up'\<close> and \<^verbatim>\<open>'down'\<close> in the
  source, and the bound method that each names (\<^verbatim>\<open>self.move_left\<close>, ...).
\<close>

datatype Move = Left | Right | Up | Down

fun move_func :: "Move \<Rightarrow> bool \<Rightarrow> 'a GameState_scheme \<Rightarrow> py_error + (bool \<times> 'a GameState_scheme)" where
  "move_func Left = move_left"
| "move_func Right = move_right"
| "move_func Up = move_up"
| "move_func Down = move_down"

text \<open>
  \<^verbatim>\<open>simulate_move\<close> runs the move without scoring, compares the board with its
  copy and puts the copy back.
\<close>

definition simulate_move :: "Move \<Rightarrow> 'a GameState_scheme \<Rightarrow> py_error + (bool \<times> 'a GameState_scheme)" where
  "simulate_move m s =
     (let original_board = board s in
      case move_func m False s of
        Inl e \<Rightarrow> Inl e
      | Inr (moved, s') \<Rightarrow>
          Inr (board s' \<noteq> original_board, s'\<lparr>board := original_board\<rparr>))"

text \<open>
  \<^verbatim>\<open>Game.move_possible\<close>: the loop over the four move functions, leaving at the
  first simulated move that changed the board.
\<close>

fun move_possible_loop ::
  "int list list \<Rightarrow> Move list \<Rightarrow> 'a GameState_scheme \<Rightarrow> py_error + (bool \<times> 'a GameState_scheme)" where
  "move_possible_loop original_board [] s = Inr (False, s\<lparr>board := original_board\<rparr>)"
| "move_possible_loop original_board (m # ms) s =
     (case simulate_move m (s\<lparr>board := original_board\<rparr>) of
        Inl e \<Rightarrow> Inl e
      | Inr (changed, s') \<Rightarrow>
          if changed then Inr (True, s'\<lparr>board := original_board\<rparr>)
          else move_possible_loop original_board ms s')"

definition move_possible :: "'a GameState_scheme \<Rightarrow> py_error + (bool \<times> 'a GameState_scheme)" where
  "move_possible s = move_possible_loop (board s) [Left, Right, Up, Down] s"

definition check_game_over :: "'a GameState_scheme \<Rightarrow> py_error + (bool \<times> 'a GameState_scheme)" where
  "check_game_over s =
     (case move_possible s of Inl e \<Rightarrow> Inl e | Inr (possible, s') \<Rightarrow> Inr (\<not> possible, s'))"

definition check_win :: "'a Game_scheme \<Rightarrow> bool" where
  "check_win g = (\<exists>row \<in> set (board g). \<exists>x \<in> set row. goal g \<le> x)"

text \<open>
  \<^verbatim>\<open>GameState.valid_moves\<close>: every direction is tried without scoring, kept when
  the move function returns \<^verbatim>\<open>True\<close>, and the copy of the board is put back.
\<close>

fun valid_moves_loop ::
  "Move list \<Rightarrow> Move list \<times> 'a GameState_scheme \<Rightarrow> py_error + (Move list \<times> 'a GameState_scheme)" where
  "valid_moves_loop [] st = Inr st"
| "valid_moves_loop (direction # ds) (moves, s) =
     (let original_board = board s in
      case move_func direction False s of
        Inl e \<Rightarrow> Inl e
      | Inr (moved, s') \<Rightarrow>
          valid_moves_loop ds
            (if moved then moves @ [direction] else moves, s'\<lparr>board := original_board\<rparr>))"

definition valid_moves :: "'a GameState_scheme \<Rightarrow> py_error + (Move list \<times> 'a GameState_scheme)" where
  "valid_moves s = valid_moves_loop [Left, Right, Up, Down] ([], s)"

text \<open>
  The boards of the data model: \<open>dim\<close> rows of \<open>dim\<close> cells.  \<^verbatim>\<open>Game.__init__\<close>
  builds such a board, and every move keeps the shape.
\<close>

definition square :: "nat \<Rightarrow> int list list \<Rightarrow> bool" where
  "square n b = (length b = n \<and> (\<forall>row \<in> set b. length row = n))"

definition well_formed :: "'a GameState_scheme \<Rightarrow> bool" where
  "well_formed s = (0 \<le> dim s \<and> square (nat (dim s)) (board s))"

definition board_sum :: "int list list \<Rightarrow> int" where
  "board_sum b = sum_list (map sum_list b)"

text \<open>
  What \<^verbatim>\<open>move_left\<close> makes of one row of a board of dimension \<open>d\<close>, and of all
  rows; and whether a move, run on a state, leaves another board than it found.
\<close>

definition left_row :: "int \<Rightarrow> int list \<Rightarrow> int list" where
  "left_row d row =
     (let merged_and_compressed_row = compress (fst (merge (compress row) False 0))
      in merged_and_compressed_row
           @ replicate (nat (d - int (length merged_and_compressed_row))) 0)"

definition left_board :: "int \<Rightarrow> int list list \<Rightarrow> int list list" where
  "left_board d b = map (left_row d) b"

definition move_changes :: "Move \<Rightarrow> bool \<Rightarrow> 'a GameState_scheme \<Rightarrow> bool" where
  "move_changes m update_score s =
     (case move_func m update_score s of
        Inl e \<Rightarrow> False
      | Inr (moved, s') \<Rightarrow> board s' \<noteq> board s)"

text \<open>
  The board that each move makes of a square board of dimension \<open>d\<close>: the
  rotations of the move's method around \<open>left_board\<close>.
\<close>

fun moved_board :: "Move \<Rightarrow> int \<Rightarrow> int list list \<Rightarrow> int list list" where
  "moved_board Left d b = left_board d b"
| "moved_board Right d b =
     rotate_board (rotate_board (left_board d (rotate_board (rotate_board b))))"
| "moved_board Up d b =
     rotate_board (left_board d (rotate_board (rotate_board (rotate_board b))))"
| "moved_board Down d b =
     rotate_board (rotate_board (rotate_board (left_board d (rotate_board b))))"

text \<open>
  \<^verbatim>\<open>add_new_tile\<close>: the empty cells in row-major order; \<^verbatim>\<open>random.choice\<close> picks
  one of them (the index \<open>pick\<close>, taken modulo their number) and
  \<^verbatim>\<open>random.choices([2, 4], ...)\<close> yields the value \<open>tile\<close>.  Reading
  \<^verbatim>\<open>self.board[r][c]\<close> raises \<^verbatim>\<open>IndexError\<close> on a board smaller than \<open>dim\<close>.
\<close>

definition add_new_tile :: "nat \<Rightarrow> int \<Rightarrow> 'a GameState_scheme \<Rightarrow> py_error + 'a GameState_scheme" where
  "add_new_tile pick tile s =
     (let n = nat (dim s) in
      if length (board s) < n \<or> (\<exists>row \<in> set (take n (board s)). length row < n)
      then Inl IndexError
      else
        let empty_cells = [(r, c). r \<leftarrow> [0..<n], c \<leftarrow> [0..<n], board s ! r ! c = 0] in
        if empty_cells \<noteq> [] then
          let (r, c) = empty_cells ! (pick mod length empty_cells)
          in Inr (s\<lparr>board := (board s)[r := (board s ! r)[c := tile]]\<rparr>)
        else Inr s)"

section \<open>The agents of \<^verbatim>\<open>agents.py\<close>\<close>

text \<open>
  A \<^verbatim>\<open>GameState\<close> object is a reference into a store of objects.  The class
  defines neither \<^verbatim>\<open>__eq__\<close> nor \<^verbatim>\<open>__hash__\<close>, so \<^verbatim>\<open>==\<close> on two such objects is
  Python's default for objects, identity, and \<^verbatim>\<open>hash\<close> is the default hash, a
  function of the address that differs for different live objects.
  \<^verbatim>\<open>GameStateFeatures\<close> wraps one reference (\<^verbatim>\<open>self.state\<close>) and hands both
  operations on to it.
\<close>

type_synonym ref = nat

type_synonym heap = "ref \<Rightarrow> GameState"

definition object_eq :: "ref \<Rightarrow> ref \<Rightarrow> bool" where
  "object_eq a b = (a = b)"

definition object_hash :: "ref \<Rightarrow> nat" where
  "object_hash a = a"

datatype GameStateFeatures = GameStateFeatures (state: ref)

definition features_eq :: "GameStateFeatures \<Rightarrow> GameStateFeatures \<Rightarrow> bool" where
  "features_eq self other = object_eq (state self) (state other)"

definition features_hash :: "GameStateFeatures \<Rightarrow> nat" where
  "features_hash self = object_hash (state self)"

text \<open>\<^verbatim>\<open>max\<close> of a sequence raises \<^verbatim>\<open>ValueError\<close> on an empty one.\<close>

fun py_max :: "int list \<Rightarrow> py_error + int" where
  "py_max [] = Inl ValueError"
| "py_max (x # xs) = Inr (fold max xs x)"

fun row_maxima :: "int list list \<Rightarrow> py_error + int list" where
  "row_maxima [] = Inr []"
| "row_maxima (row # rows) =
     (case py_max row of
        Inl e \<Rightarrow> Inl e
      | Inr m \<Rightarrow> (case row_maxima rows of Inl e \<Rightarrow> Inl e | Inr ms \<Rightarrow> Inr (m # ms)))"

text \<open>
  \<^verbatim>\<open>largest_in_corner\<close>, on the state that the features wrap:
  \<^verbatim>\<open>max(max(row) for row in board) == board[0][0]\<close>.
\<close>

definition largest_in_corner :: "GameState \<Rightarrow> py_error + bool" where
  "largest_in_corner s =
     (case row_maxima (board s) of
        Inl e \<Rightarrow> Inl e
      | Inr ms \<Rightarrow>
          (case py_max ms of
             Inl e \<Rightarrow> Inl e
           | Inr max_tile \<Rightarrow> Inr (max_tile = board s ! 0 ! 0)))"

text \<open>
  \<^verbatim>\<open>computeReward\<close>.  Python floats are modelled as real numbers, so rounding
  and overflow of the float arithmetic are outside the model.
\<close>

definition computeReward :: "GameState \<Rightarrow> GameState \<Rightarrow> py_error + real" where
  "computeReward startState endState =
     (let score_increase = score endState - score startState;
          empty_tiles = length (filter (\<lambda>cell. cell = 0) (concat (board endState)))
      in case largest_in_corner endState of
           Inl e \<Rightarrow> Inl e
         | Inr corner \<Rightarrow>
             let corner_bonus =
                   (if corner then real_of_int (score startState) + 0.5 * real_of_int score_increase
                    else 0)
             in Inr (real_of_int score_increase + corner_bonus + real (empty_tiles * 10)))"

text \<open>
  The Q-table is a dictionary from pairs of features and action to pairs of
  value and visit count, kept as its list of items in insertion order.  A key
  is found when it is equal to the given one as tuples are: by
  \<^verbatim>\<open>GameStateFeatures.__eq__\<close> on the features, and on the action.  A count is
  written only as \<^verbatim>\<open>count + 1\<close> from the default \<open>0\<close>, hence a natural number.
\<close>

type_synonym qkey = "GameStateFeatures \<times> Move"

type_synonym qtable = "(qkey \<times> (real \<times> nat)) list"

definition key_eq :: "qkey \<Rightarrow> qkey \<Rightarrow> bool" where
  "key_eq k k' = (features_eq (fst k) (fst k') \<and> snd k = snd k')"

fun dict_get :: "qtable \<Rightarrow> qkey \<Rightarrow> real \<times> nat \<Rightarrow> real \<times> nat" where
  "dict_get [] k d = d"
| "dict_get ((k', v) # t) k d = (if key_eq k' k then v else dict_get t k d)"

fun dict_set :: "qtable \<Rightarrow> qkey \<Rightarrow> real \<times> nat \<Rightarrow> qtable" where
  "dict_set [] k v = [(k, v)]"
| "dict_set ((k', v') # t) k v =
     (if key_eq k' k then (k', v) # t else (k', v') # dict_set t k v)"

record QLearnAgent =
  alpha :: real
  epsilon :: real
  gamma :: real
  maxAttempts :: int
  numTraining :: int
  episodesSoFar :: int
  qTable :: qtable
  previousState :: "ref list"
  previousAction :: "Move list"

text \<open>\<^verbatim>\<open>QLearnAgent()\<close>: the constructor with its default arguments.\<close>

definition init_agent :: QLearnAgent where
  "init_agent =
     \<lparr>alpha = 0.2, epsilon = 0.05, gamma = 0.8, maxAttempts = 30, numTraining = 0,
      episodesSoFar = 0, qTable = [], previousState = [], previousAction = []\<rparr>"

definition getQValue :: "QLearnAgent \<Rightarrow> GameStateFeatures \<Rightarrow> Move \<Rightarrow> real" where
  "getQValue agent st action = fst (dict_get (qTable agent) (st, action) (0, 0))"

definition getCount :: "QLearnAgent \<Rightarrow> GameStateFeatures \<Rightarrow> Move \<Rightarrow> nat" where
  "getCount agent st action = snd (dict_get (qTable agent) (st, action) (0, 0))"

definition maxQValue :: "QLearnAgent \<Rightarrow> GameStateFeatures \<Rightarrow> real" where
  "maxQValue agent st =
     (let qValues = map (\<lambda>(k, v). fst v) (filter (\<lambda>(k, v). features_eq (fst k) st) (qTable agent))
      in case qValues of [] \<Rightarrow> 0 | q # qs \<Rightarrow> fold max qs q)"

definition learn :: "QLearnAgent \<Rightarrow> GameStateFeatures \<Rightarrow> Move \<Rightarrow> real \<Rightarrow> GameStateFeatures \<Rightarrow> QLearnAgent" where
  "learn agent st action reward nextState =
     (let updatedQValues =
            (1 - alpha agent) * getQValue agent st action
            + alpha agent * (reward + gamma agent * maxQValue agent nextState);
          visitCount = snd (dict_get (qTable agent) (st, action) (0, 0))
      in agent\<lparr>qTable := dict_set (qTable agent) (st, action) (updatedQValues, visitCount + 1)\<rparr>)"

definition updateCount :: "QLearnAgent \<Rightarrow> GameStateFeatures \<Rightarrow> Move \<Rightarrow> QLearnAgent" where
  "updateCount agent st action =
     (let (qValue, times) = dict_get (qTable agent) (st, action) (0, 0)
      in agent\<lparr>qTable := dict_set (qTable agent) (st, action) (qValue, times + 1)\<rparr>)"

definition explorationFn :: "real \<Rightarrow> nat \<Rightarrow> real" where
  "explorationFn utility counts = utility + 10 / real (counts + 1)"

text \<open>
  The update that \<^verbatim>\<open>get_move\<close> and \<^verbatim>\<open>final\<close> both make when
  \<^verbatim>\<open>self.previousState\<close> is not empty: the reward between the last recorded
  state and the current one, then \<^verbatim>\<open>learn\<close>.  \<^verbatim>\<open>self.previousAction[-1]\<close>
  raises \<^verbatim>\<open>IndexError\<close> on an empty list.
\<close>

definition learn_previous :: "heap \<Rightarrow> ref \<Rightarrow> QLearnAgent \<Rightarrow> py_error + QLearnAgent" where
  "learn_previous h current agent =
     (if previousState agent \<noteq> [] then
        if previousAction agent = [] then Inl IndexError
        else
          let prevState = last (previousState agent);
              prevAction = last (previousAction agent)
          in case computeReward (h prevState) (h current) of
               Inl e \<Rightarrow> Inl e
             | Inr reward \<Rightarrow>
                 Inr (learn agent (GameStateFeatures prevState) prevAction reward
                        (GameStateFeatures current))
      else Inr agent)"

text \<open>
  \<^verbatim>\<open>max(adjustedQValues, key=adjustedQValues.get)\<close>: the first key, in the order
  of \<^verbatim>\<open>moves\<close>, whose value no other exceeds.
\<close>

fun argmax_first :: "('a \<Rightarrow> real) \<Rightarrow> 'a \<Rightarrow> 'a list \<Rightarrow> 'a" where
  "argmax_first f best [] = best"
| "argmax_first f best (x # xs) = argmax_first f (if f best < f x then x else best) xs"

definition greedy_action :: "QLearnAgent \<Rightarrow> GameStateFeatures \<Rightarrow> Move list \<Rightarrow> Move" where
  "greedy_action agent stateFeatures moves =
     argmax_first
       (\<lambda>action. explorationFn (getQValue agent stateFeatures action)
                    (getCount agent stateFeatures action))
       (hd moves) (tl moves)"

text \<open>
  The choice between exploration and exploitation, on a list of moves that is
  not empty: \<open>u\<close> is the value of \<^verbatim>\<open>random.random()\<close>, in \<open>[0, 1)\<close>, and \<open>pick\<close>
  the index that \<^verbatim>\<open>random.choice\<close> draws.
\<close>

definition explores :: "QLearnAgent \<Rightarrow> real \<Rightarrow> bool" where
  "explores agent u = (u < epsilon agent)"

definition choose_action :: "QLearnAgent \<Rightarrow> GameStateFeatures \<Rightarrow> Move list \<Rightarrow> real \<Rightarrow> nat \<Rightarrow> Move" where
  "choose_action agent stateFeatures moves u pick =
     (if explores agent u then moves ! (pick mod length moves)
      else greedy_action agent stateFeatures moves)"

text \<open>
  \<^verbatim>\<open>QLearnAgent.get_move\<close> on the object at \<open>game_state\<close>.  \<^verbatim>\<open>valid_moves\<close> works
  on that object, so the store is returned with it.
\<close>

definition get_move ::
  "heap \<Rightarrow> ref \<Rightarrow> real \<Rightarrow> nat \<Rightarrow> QLearnAgent \<Rightarrow> py_error + (Move option \<times> QLearnAgent \<times> heap)" where
  "get_move h game_state u pick agent =
     (case valid_moves (h game_state) of
        Inl e \<Rightarrow> Inl e
      | Inr (moves, gs) \<Rightarrow>
          let h' = h(game_state := gs) in
          if moves \<noteq> [] then
            let stateFeatures = GameStateFeatures game_state in
            case learn_previous h' game_state agent of
              Inl e \<Rightarrow> Inl e
            | Inr agent1 \<Rightarrow>
                let action = choose_action agent1 stateFeatures moves u pick;
                    agent2 = updateCount agent1 stateFeatures action
                in Inr (Some action,
                        agent2\<lparr>previousState := previousState agent2 @ [game_state],
                               previousAction := previousAction agent2 @ [action]\<rparr>,
                        h')
          else Inr (None, agent, h'))"

text \<open>\<^verbatim>\<open>QLearnAgent.final\<close>; the messages it prints are left out.\<close>

definition final :: "heap \<Rightarrow> ref \<Rightarrow> QLearnAgent \<Rightarrow> py_error + QLearnAgent" where
  "final h st agent =
     (case learn_previous h st agent of
        Inl e \<Rightarrow> Inl e
      | Inr agent1 \<Rightarrow>
          let agent2 = agent1\<lparr>previousState := [], previousAction := [],
                               episodesSoFar := episodesSoFar agent1 + 1\<rparr>
          in Inr (if numTraining agent2 \<le> episodesSoFar agent2
                  then agent2\<lparr>alpha := 0, epsilon := 0\<rparr>
                  else agent2))"

text \<open>
  What a client of the agent can do to it through the methods above, from one
  call to the next.
\<close>

inductive agent_calls :: "QLearnAgent \<Rightarrow> QLearnAgent \<Rightarrow> bool" where
  no_call: "agent_calls a a"
| call_get_move: "agent_calls a b \<Longrightarrow> get_move h r u pick b = Inr (m, c, h') \<Longrightarrow> agent_calls a c"
| call_final: "agent_calls a b \<Longrightarrow> final h r b = Inr c \<Longrightarrow> agent_calls a c"
| call_learn: "agent_calls a b \<Longrightarrow> agent_calls a (learn b st action reward nextState)"
| call_updateCount: "agent_calls a b \<Longrightarrow> agent_calls a (updateCount b st action)"

section \<open>The turn of \<^verbatim>\<open>Game.play\<close> with an agent\<close>

text \<open>
  One pass through the body of the loop of \<^verbatim>\<open>play\<close> when \<^verbatim>\<open>self.agent\<close> is
  set.  The agent is any object with a \<^verbatim>\<open>get_move\<close> method, here a function
  on the store, the address of the snapshot and the agent's state.  The
  snapshot \<^verbatim>\<open>GameState(self.board, self.score, self.dim)\<close> is a new object, at
  the address \<open>r\<close>.  The pass ends in \<^verbatim>\<open>break\<close> with one of three messages, or
  goes on to the next test of the loop:
  \<^item> \<open>Stop_NoValidMoves\<close>: \<^verbatim>\<open>No valid moves available. Game over.\<close>
  \<^item> \<open>Stop_InvalidMove\<close>: \<^verbatim>\<open>Invalid move returned by agent. Game over.\<close>
  \<^item> \<open>Stop_Won\<close>: the board and the congratulation.
\<close>

datatype turn_result = Continue | Stop_NoValidMoves | Stop_InvalidMove | Stop_Won

definition snapshot :: "Game \<Rightarrow> GameState" where
  "snapshot g = GameState_init (board g) (score g) (dim g)"

definition play_turn ::
  "(heap \<Rightarrow> ref \<Rightarrow> 'ag \<Rightarrow> py_error + (Move option \<times> 'ag \<times> heap)) \<Rightarrow>
   heap \<Rightarrow> ref \<Rightarrow> 'ag \<Rightarrow> nat \<Rightarrow> int \<Rightarrow> Game \<Rightarrow> py_error + (turn_result \<times> Game \<times> 'ag \<times> heap)" where
  "play_turn agent_get_move h r agent pick tile g =
     (case agent_get_move (h(r := snapshot g)) r agent of
        Inl e \<Rightarrow> Inl e
      | Inr (move_choice, agent', h') \<Rightarrow>
          (case move_choice of
             Some m \<Rightarrow>
               (case move_func m True g of
                  Inl e \<Rightarrow> Inl e
                | Inr (moved, g1) \<Rightarrow>
                    if moved then
                      (case add_new_tile pick tile g1 of
                         Inl e \<Rightarrow> Inl e
                       | Inr g2 \<Rightarrow>
                           Inr (if check_win g2 then Stop_Won else Continue, g2, agent', h'))
                    else Inr (Stop_InvalidMove, g1, agent', h'))
           | None \<Rightarrow> Inr (Stop_NoValidMoves, g, agent', h')))"

section \<open>Properties of the board engine\<close>

lemma length_merge_step: "length (fst (merge_step u i st)) = length (fst st)"
  by (cases st) (simp add: merge_step_def)

lemma sum_list_update_int:
  "k < length xs \<Longrightarrow> sum_list (xs[k := x]) = sum_list xs + x - (xs ! k :: int)"
  by (induction xs arbitrary: k) (auto split: nat.splits)

lemma sum_merge_step:
  "i + 1 < length (fst st) \<Longrightarrow> sum_list (fst (merge_step u i st)) = sum_list (fst st)"
  by (cases st) (simp add: merge_step_def sum_list_update_int)

lemma fold_merge_step_inv:
  "\<forall>i \<in> set is. i + 1 < length (fst st) \<Longrightarrow>
   length (fst (fold (merge_step u) is st)) = length (fst st) \<and>
   sum_list (fst (fold (merge_step u) is st)) = sum_list (fst st)"
proof (induction "is" arbitrary: st)
  case Nil
  then show ?case by simp
next
  case (Cons i "is")
  have "\<forall>j \<in> set is. j + 1 < length (fst (merge_step u i st))"
    using Cons.prems by (simp add: length_merge_step)
  from Cons.IH [OF this] show ?case
    using Cons.prems by (simp add: length_merge_step sum_merge_step)
qed

lemma merge_range: "\<forall>i \<in> set [0..<length row - 1]. i + 1 < length (fst (row, sc))"
  by auto

lemma merge_length: "length (fst (merge row u sc)) = length row"
  unfolding merge_def using fold_merge_step_inv [OF merge_range [of row sc], of u] by simp

lemma merge_sum: "sum_list (fst (merge row u sc)) = sum_list row"
  unfolding merge_def using fold_merge_step_inv [OF merge_range [of row sc], of u] by simp

lemma compress_sum: "sum_list (compress row) = sum_list row"
  by (induction row) (simp_all add: compress_def)

lemma compress_length: "length (compress row) \<le> length row"
  by (simp add: compress_def)


lemma fst_merge_step: "fst (merge_step u i (row, sc)) = fst (merge_step u' i (row, sc'))"
  by (simp add: merge_step_def)

lemma fst_fold_merge_step:
  "fst (fold (merge_step u) is (row, sc)) = fst (fold (merge_step u') is (row, sc'))"
proof (induction "is" arbitrary: row sc sc')
  case Nil
  then show ?case by simp
next
  case (Cons i "is")
  obtain r1 s1 where a: "merge_step u i (row, sc) = (r1, s1)" by (cases "merge_step u i (row, sc)")
  obtain r2 s2 where b: "merge_step u' i (row, sc') = (r2, s2)" by (cases "merge_step u' i (row, sc')")
  from a b fst_merge_step [of u i row sc u' sc'] have "r1 = r2" by simp
  with a b Cons.IH [of r1 s1 s2] show ?case by simp
qed

lemma fst_merge: "fst (merge row u sc) = fst (merge row False 0)"
  unfolding merge_def by (rule fst_fold_merge_step)

lemma snd_merge_step_False: "snd (merge_step False i st) = snd st"
  by (cases st) (simp add: merge_step_def)

lemma snd_fold_merge_step_False: "snd (fold (merge_step False) is st) = snd st"
  by (induction "is" arbitrary: st) (simp_all add: snd_merge_step_False)

lemma snd_merge_False: "snd (merge row False sc) = sc"
  unfolding merge_def by (simp add: snd_fold_merge_step_False)

lemma left_row_length: "length row = nat d \<Longrightarrow> length (left_row d row) = nat d"
proof -
  assume a: "length row = nat d"
  have "length (compress (fst (merge (compress row) False 0))) \<le> length row"
    using compress_length [of "fst (merge (compress row) False 0)"] compress_length [of row]
    by (simp add: merge_length)
  with a show ?thesis by (simp add: left_row_def Let_def)
qed

lemma left_row_sum: "sum_list (left_row d row) = sum_list row"
  by (simp add: left_row_def Let_def compress_sum merge_sum sum_list_replicate)

lemma move_left_row_eq:
  "i < length (board s) \<Longrightarrow>
   move_left_row u i (s, moved) =
     Inr (s\<lparr>board := (board s)[i := left_row (dim s) (board s ! i)],
            score := snd (merge (compress (board s ! i)) u (score s))\<rparr>,
          moved \<or> board s ! i \<noteq> left_row (dim s) (board s ! i))"
proof -
  assume a: "i < length (board s)"
  obtain mr sc where m: "merge (compress (board s ! i)) u (score s) = (mr, sc)"
    by (cases "merge (compress (board s ! i)) u (score s)")
  have "mr = fst (merge (compress (board s ! i)) False 0)"
    using fst_merge [of "compress (board s ! i)" u "score s"] m by simp
  with a m show ?thesis
    by (simp add: move_left_row_def left_row_def Let_def)
qed


lemma move_left_loop_spec:
  "distinct is \<Longrightarrow> \<forall>i \<in> set is. i < length (board s) \<Longrightarrow>
   \<exists>sc. move_left_loop u is (s, moved) =
     Inr (s\<lparr>board := map (\<lambda>i. if i \<in> set is then left_row (dim s) (board s ! i) else board s ! i)
                        [0..<length (board s)],
            score := sc\<rparr>,
          moved \<or> (\<exists>i \<in> set is. board s ! i \<noteq> left_row (dim s) (board s ! i)))
     \<and> (\<not> u \<longrightarrow> sc = score s)"
proof (induction "is" arbitrary: s moved)
  case Nil
  have "s = s\<lparr>score := score s\<rparr>" by simp
  then show ?case by (auto simp: map_nth intro: exI [of _ "score s"])
next
  case (Cons i "is")
  let ?s1 = "s\<lparr>board := (board s)[i := left_row (dim s) (board s ! i)],
                score := snd (merge (compress (board s ! i)) u (score s))\<rparr>"
  let ?m1 = "moved \<or> board s ! i \<noteq> left_row (dim s) (board s ! i)"
  have step: "move_left_row u i (s, moved) = Inr (?s1, ?m1)"
    using Cons.prems by (simp add: move_left_row_eq)
  have d: "distinct is" and ni: "i \<notin> set is" using Cons.prems by simp_all
  have r: "\<forall>j \<in> set is. j < length (board ?s1)" using Cons.prems by simp
  from Cons.IH [OF d r, of ?m1] obtain sc where
    ih: "move_left_loop u is (?s1, ?m1) =
           Inr (?s1\<lparr>board := map (\<lambda>j. if j \<in> set is then left_row (dim ?s1) (board ?s1 ! j)
                                        else board ?s1 ! j) [0..<length (board ?s1)],
                    score := sc\<rparr>,
                ?m1 \<or> (\<exists>j \<in> set is. board ?s1 ! j \<noteq> left_row (dim ?s1) (board ?s1 ! j)))"
    and sc: "\<not> u \<longrightarrow> sc = score ?s1"
    by blast
  have b: "map (\<lambda>j. if j \<in> set is then left_row (dim ?s1) (board ?s1 ! j) else board ?s1 ! j)
             [0..<length (board ?s1)]
         = map (\<lambda>j. if j \<in> set (i # is) then left_row (dim s) (board s ! j) else board s ! j)
             [0..<length (board s)]"
    using ni Cons.prems by (auto simp: nth_list_update)
  have m: "(?m1 \<or> (\<exists>j \<in> set is. board ?s1 ! j \<noteq> left_row (dim ?s1) (board ?s1 ! j)))
         = (moved \<or> (\<exists>j \<in> set (i # is). board s ! j \<noteq> left_row (dim s) (board s ! j)))"
    using ni by (auto simp: nth_list_update)
  have sc': "\<not> u \<longrightarrow> sc = score s" using sc by (simp add: snd_merge_False)
  show ?case
    using step ih sc' unfolding b m by (intro exI [of _ sc]) simp
qed


lemma map_upt_nth: "map (\<lambda>i. f (xs ! i)) [0..<length xs] = map f xs"
  by (rule nth_equalityI) simp_all

lemma map_neq_iff: "(\<exists>i \<in> set [0..<length xs]. xs ! i \<noteq> f (xs ! i)) = (map f xs \<noteq> xs)"
proof -
  have "(map f xs = xs) = (\<forall>i<length xs. f (xs ! i) = xs ! i)"
    by (simp add: list_eq_iff_nth_eq)
  then have "(map f xs \<noteq> xs) = (\<exists>i<length xs. xs ! i \<noteq> f (xs ! i))"
    by metis
  then show ?thesis by (simp add: Bex_def)
qed

lemma move_left_eq:
  assumes "length (board s) = nat (dim s)"
  shows "\<exists>sc. move_left u s =
           Inr (left_board (dim s) (board s) \<noteq> board s,
                s\<lparr>board := left_board (dim s) (board s), score := sc\<rparr>)
         \<and> (\<not> u \<longrightarrow> sc = score s)"
proof -
  have d: "distinct [0..<nat (dim s)]" by simp
  have r: "\<forall>i \<in> set [0..<nat (dim s)]. i < length (board s)" using assms by simp
  from move_left_loop_spec [OF d r, of u False] obtain sc where
    l: "move_left_loop u [0..<nat (dim s)] (s, False) =
          Inr (s\<lparr>board := map (\<lambda>i. if i \<in> set [0..<nat (dim s)]
                                     then left_row (dim s) (board s ! i) else board s ! i)
                              [0..<length (board s)],
                 score := sc\<rparr>,
               False \<or> (\<exists>i \<in> set [0..<nat (dim s)]. board s ! i \<noteq> left_row (dim s) (board s ! i)))"
    and sc: "\<not> u \<longrightarrow> sc = score s"
    by blast
  have b: "map (\<lambda>i. if i \<in> set [0..<nat (dim s)]
                     then left_row (dim s) (board s ! i) else board s ! i)
             [0..<length (board s)] = left_board (dim s) (board s)"
    unfolding left_board_def using assms
    by (intro nth_equalityI) simp_all
  have m: "(\<exists>i \<in> set [0..<nat (dim s)]. board s ! i \<noteq> left_row (dim s) (board s ! i))
           = (left_board (dim s) (board s) \<noteq> board s)"
    unfolding left_board_def using map_neq_iff [of "board s" "left_row (dim s)"] assms by simp
  show ?thesis
    using l sc unfolding b m by (intro exI [of _ sc]) (simp add: move_left_def)
qed

lemma left_board_square: "square (nat d) b \<Longrightarrow> square (nat d) (left_board d b)"
  by (auto simp: square_def left_board_def left_row_length)

lemma left_board_sum: "board_sum (left_board d b) = board_sum b"
  by (simp add: board_sum_def left_board_def comp_def left_row_sum)

lemma zip_star_square:
  assumes "square n b"
  shows "zip_star b = map (\<lambda>j. map (\<lambda>row. row ! j) b) [0..<n]"
proof (cases "b = []")
  case True
  with assms show ?thesis by (simp add: zip_star_def square_def)
next
  case False
  then have "set (map length b) = {n}" using assms by (cases b) (auto simp: square_def)
  then have "Min (set (map length b)) = n" by simp
  with False show ?thesis by (simp add: zip_star_def)
qed

lemma square_rev: "square n b \<Longrightarrow> square n (rev b)"
  by (simp add: square_def)

lemma rotate_board_square:
  "square n b \<Longrightarrow> rotate_board b = map (\<lambda>j. map (\<lambda>row. row ! j) (rev b)) [0..<n]"
  unfolding rotate_board_def by (rule zip_star_square) (rule square_rev)

lemma square_rotate: "square n b \<Longrightarrow> square n (rotate_board b)"
  by (simp add: rotate_board_square) (simp add: square_def)

lemma rotate_nth:
  "square n b \<Longrightarrow> j < n \<Longrightarrow> i < n \<Longrightarrow> rotate_board b ! j ! i = b ! (n - Suc i) ! j"
  by (simp add: rotate_board_square) (simp add: square_def rev_nth)

lemma square_eqI:
  "square n a \<Longrightarrow> square n b \<Longrightarrow> (\<And>i j. i < n \<Longrightarrow> j < n \<Longrightarrow> a ! i ! j = b ! i ! j) \<Longrightarrow> a = b"
  by (auto simp: square_def list_eq_iff_nth_eq)

lemma rotate4:
  assumes "square n b"
  shows "rotate_board (rotate_board (rotate_board (rotate_board b))) = b"
proof (rule square_eqI [of n])
  show "square n (rotate_board (rotate_board (rotate_board (rotate_board b))))"
    using assms by (intro square_rotate)
  show "square n b" by (rule assms)
  fix i j assume ij: "i < n" "j < n"
  have s1: "square n (rotate_board b)" using assms by (rule square_rotate)
  have s2: "square n (rotate_board (rotate_board b))" using s1 by (rule square_rotate)
  have s3: "square n (rotate_board (rotate_board (rotate_board b)))" using s2 by (rule square_rotate)
  have a: "n - Suc j < n" "n - Suc i < n" using ij by simp_all
  have e: "n - Suc (n - Suc i) = i" "n - Suc (n - Suc j) = j" using ij by simp_all
  show "rotate_board (rotate_board (rotate_board (rotate_board b))) ! i ! j = b ! i ! j"
    using ij a by (simp add: rotate_nth [OF s3] rotate_nth [OF s2] rotate_nth [OF s1] rotate_nth [OF assms] e)
qed


lemma sum_list_swap:
  "sum_list (map (\<lambda>j. sum_list (map (\<lambda>r. f r j) rs)) js)
   = (sum_list (map (\<lambda>r. sum_list (map (\<lambda>j. f r j) js)) rs) :: int)"
  by (induction rs) (simp_all add: sum_list_addf)

lemma rotate_sum:
  assumes "square n b"
  shows "board_sum (rotate_board b) = board_sum b"
proof -
  have "board_sum (rotate_board b)
        = sum_list (map (\<lambda>j. sum_list (map (\<lambda>row. row ! j) (rev b))) [0..<n])"
    by (simp add: board_sum_def rotate_board_square [OF assms] comp_def)
  also have "\<dots> = sum_list (map (\<lambda>row. sum_list (map (\<lambda>j. row ! j) [0..<n])) (rev b))"
    by (rule sum_list_swap)
  also have "\<dots> = sum_list (map sum_list (rev b))"
  proof -
    have "\<And>row. row \<in> set (rev b) \<Longrightarrow> map (\<lambda>j. row ! j) [0..<n] = row"
    proof -
      fix row assume "row \<in> set (rev b)"
      then have "length row = n" using assms by (simp add: square_def)
      then show "map (\<lambda>j. row ! j) [0..<n] = row" using map_nth [of row] by simp
    qed
    then have "map (\<lambda>row. sum_list (map (\<lambda>j. row ! j) [0..<n])) (rev b) = map sum_list (rev b)"
      by (intro map_cong) simp_all
    then show ?thesis by (simp only:)
  qed
  also have "\<dots> = board_sum b"
    by (simp add: board_sum_def rev_map [symmetric] sum_list_rev)
  finally show ?thesis .
qed

lemma rotated_move:
  assumes wf: "well_formed s"
    and pre: "square (nat (dim s)) (pre (board s))"
    and inv: "post (pre (board s)) = board s"
    and inj: "\<And>b. square (nat (dim s)) b \<Longrightarrow> pre (post b) = b"
  shows "\<exists>sc. (case move_left u (s\<lparr>board := pre (board s)\<rparr>) of
               Inl e \<Rightarrow> Inl e
             | Inr (moved, s') \<Rightarrow> Inr (moved, s'\<lparr>board := post (board s')\<rparr>))
           = Inr (post (left_board (dim s) (pre (board s))) \<noteq> board s,
                  s\<lparr>board := post (left_board (dim s) (pre (board s))), score := sc\<rparr>)
         \<and> (\<not> u \<longrightarrow> sc = score s)"
proof -
  let ?s0 = "s\<lparr>board := pre (board s)\<rparr>"
  let ?L = "left_board (dim s) (pre (board s))"
  have len: "length (board ?s0) = nat (dim ?s0)" using pre by (simp add: square_def)
  from move_left_eq [OF len, of u] obtain sc where
    l: "move_left u ?s0 = Inr (?L \<noteq> pre (board s), ?s0\<lparr>board := ?L, score := sc\<rparr>)"
    and sc: "\<not> u \<longrightarrow> sc = score s"
    by auto
  have sqL: "square (nat (dim s)) ?L" using pre by (rule left_board_square)
  have m: "(?L \<noteq> pre (board s)) = (post ?L \<noteq> board s)"
  proof
    assume "?L \<noteq> pre (board s)"
    show "post ?L \<noteq> board s"
    proof
      assume "post ?L = board s"
      then have "pre (post ?L) = pre (board s)" by simp
      with inj [OF sqL] \<open>?L \<noteq> pre (board s)\<close> show False by simp
    qed
  next
    assume "post ?L \<noteq> board s"
    with inv show "?L \<noteq> pre (board s)" by auto
  qed
  show ?thesis
    using l sc unfolding m by (intro exI [of _ sc]) simp
qed


lemma moved_board_square: "square (nat d) b \<Longrightarrow> square (nat d) (moved_board m d b)"
  by (cases m) (simp_all add: square_rotate left_board_square)

lemma moved_board_sum: "square (nat d) b \<Longrightarrow> board_sum (moved_board m d b) = board_sum b"
  by (cases m) (simp_all add: rotate_sum [of "nat d"] square_rotate left_board_square left_board_sum)

lemma move_func_eq:
  assumes wf: "well_formed s"
  shows "\<exists>sc. move_func m u s =
           Inr (moved_board m (dim s) (board s) \<noteq> board s,
                s\<lparr>board := moved_board m (dim s) (board s), score := sc\<rparr>)
         \<and> (\<not> u \<longrightarrow> sc = score s)"
proof -
  have sq: "square (nat (dim s)) (board s)" using wf by (simp add: well_formed_def)
  show ?thesis
  proof (cases m)
    case Left
    have "length (board s) = nat (dim s)" using sq by (simp add: square_def)
    from move_left_eq [OF this, of u] show ?thesis using Left by simp
  next
    case Right
    from rotated_move [OF wf, of "\<lambda>b. rotate_board (rotate_board b)"
        "\<lambda>b. rotate_board (rotate_board b)" u]
    show ?thesis using Right sq by (simp add: move_right_def square_rotate rotate4 [of "nat (dim s)"])
  next
    case Up
    from rotated_move [OF wf, of "\<lambda>b. rotate_board (rotate_board (rotate_board b))"
        "\<lambda>b. rotate_board b" u]
    show ?thesis using Up sq by (simp add: move_up_def square_rotate rotate4 [of "nat (dim s)"])
  next
    case Down
    from rotated_move [OF wf, of "\<lambda>b. rotate_board b"
        "\<lambda>b. rotate_board (rotate_board (rotate_board b))" u]
    show ?thesis using Down sq by (simp add: move_down_def square_rotate rotate4 [of "nat (dim s)"])
  qed
qed


lemma move_changes_eq:
  assumes "well_formed s"
  shows "move_changes m u s = (moved_board m (dim s) (board s) \<noteq> board s)"
proof -
  from move_func_eq [OF assms, of m u] obtain sc where
    "move_func m u s = Inr (moved_board m (dim s) (board s) \<noteq> board s,
        s\<lparr>board := moved_board m (dim s) (board s), score := sc\<rparr>)"
    by blast
  then show ?thesis by (simp add: move_changes_def)
qed

lemma move_func_False:
  assumes "well_formed s"
  shows "move_func m False s =
           Inr (moved_board m (dim s) (board s) \<noteq> board s,
                s\<lparr>board := moved_board m (dim s) (board s)\<rparr>)"
proof -
  from move_func_eq [OF assms, of m False] obtain sc where
    "move_func m False s = Inr (moved_board m (dim s) (board s) \<noteq> board s,
        s\<lparr>board := moved_board m (dim s) (board s), score := sc\<rparr>)"
    and "sc = score s"
    by blast
  then show ?thesis by simp
qed

lemma simulate_move_eq:
  "well_formed s \<Longrightarrow>
   simulate_move m s = Inr (moved_board m (dim s) (board s) \<noteq> board s, s)"
  by (simp add: simulate_move_def move_func_False Let_def)

lemma move_possible_loop_eq:
  "well_formed s \<Longrightarrow>
   move_possible_loop (board s) ms s =
     Inr (\<exists>m \<in> set ms. moved_board m (dim s) (board s) \<noteq> board s, s)"
  by (induction ms) (simp_all add: simulate_move_eq)

lemma valid_moves_loop_eq:
  "well_formed s \<Longrightarrow>
   valid_moves_loop ds (moves, s) =
     Inr (moves @ filter (\<lambda>m. moved_board m (dim s) (board s) \<noteq> board s) ds, s)"
  by (induction ds arbitrary: moves) (simp_all add: move_func_False Let_def)

lemma valid_moves_eq:
  "well_formed s \<Longrightarrow>
   valid_moves s =
     Inr (filter (\<lambda>m. moved_board m (dim s) (board s) \<noteq> board s) [Left, Right, Up, Down], s)"
  unfolding valid_moves_def by (subst valid_moves_loop_eq) simp_all

lemma all_moves: "set [Left, Right, Up, Down] = UNIV"
proof -
  have "m \<in> set [Left, Right, Up, Down]" for m by (cases m) simp_all
  then show ?thesis by blast
qed

lemma merge_upto_Suc: "merge_upto row u sc (Suc i) = merge_step u i (merge_upto row u sc i)"
  by (simp add: merge_upto_def)

lemma merge_upto_length: "length (fst (merge_upto row u sc i)) = length row"
  by (induction i) (simp_all add: merge_upto_Suc length_merge_step, simp add: merge_upto_def)

lemma merge_step_other:
  "k \<noteq> i \<Longrightarrow> k \<noteq> Suc i \<Longrightarrow> fst (merge_step u i st) ! k = fst st ! k"
  by (cases st) (simp add: merge_step_def)

lemma merge_upto_later: "i < j \<Longrightarrow> fst (merge_upto row u sc i) ! j = row ! j"
proof (induction i)
  case 0
  then show ?case by (simp add: merge_upto_def)
next
  case (Suc i)
  then show ?case by (simp add: merge_upto_Suc merge_step_other)
qed

lemma merge_upto_here: "fst (merge_upto row u sc i) ! i = row ! i \<or> fst (merge_upto row u sc i) ! i = 0"
proof (cases i)
  case 0
  then show ?thesis by (simp add: merge_upto_def)
next
  case (Suc k)
  obtain cur s where c: "merge_upto row u sc k = (cur, s)" by (cases "merge_upto row u sc k")
  have "cur ! Suc k = row ! Suc k" using merge_upto_later [of k "Suc k" row u sc] c by simp
  moreover have "length cur = length row" using merge_upto_length [of row u sc k] c by simp
  ultimately show ?thesis
    using Suc c by (cases "Suc k < length row") (auto simp: merge_upto_Suc merge_step_def list_update_beyond)
qed

lemma merge_fold_before:
  "k < i \<Longrightarrow> fst (fold (merge_step u) [i..<n] st) ! k = fst st ! k"
  by (induction n) (simp_all add: merge_step_other)

lemma merge_split:
  "i \<le> length row - 1 \<Longrightarrow>
   merge row u sc = fold (merge_step u) [i..<length row - 1] (merge_upto row u sc i)"
proof -
  assume "i \<le> length row - 1"
  then obtain k where k: "length row - 1 = i + k" using le_Suc_ex by blast
  have "[0..<length row - 1] = [0..<i] @ [i..<length row - 1]"
    unfolding k using upt_add_eq_append [of 0 i k] by simp
  then show ?thesis by (simp add: merge_def merge_upto_def)
qed

lemma merge_step_zero:
  "fst st ! k = 0 \<Longrightarrow> fst (merge_step u k st) ! k = 0"
  by (cases st; cases "k < length (fst st)") (auto simp: merge_step_def list_update_beyond)

lemma merge_fold_zero:
  "fst st ! i = 0 \<Longrightarrow> fst (fold (merge_step u) [i..<n] st) ! i = 0"
proof (cases "i < n")
  case False
  assume "fst st ! i = 0"
  with False show ?thesis by simp
next
  case True
  assume z: "fst st ! i = 0"
  have "[i..<n] = i # [Suc i..<n]" using True by (simp add: upt_conv_Cons)
  then show ?thesis
    using merge_fold_before [of i "Suc i" u n "merge_step u i st"] merge_step_zero [OF z, of u]
    by simp
qed

lemma merges_at_cur:
  "merges_at row i =
     (i < length row - 1 \<and> fst (merge_upto row u sc i) ! i = fst (merge_upto row u sc i) ! Suc i)"
  unfolding merges_at_def Let_def merge_upto_def
  using fst_fold_merge_step [of False "[0..<i]" row 0 u sc] by simp

lemma merge_after_merge:
  assumes "merges_at row i"
  shows "fst (merge_upto row u sc (Suc i)) ! i = 2 * fst (merge_upto row u sc i) ! i"
    and "fst (merge_upto row u sc (Suc i)) ! Suc i = 0"
proof -
  obtain cur s where c: "merge_upto row u sc i = (cur, s)" by (cases "merge_upto row u sc i")
  have l: "length cur = length row" using merge_upto_length [of row u sc i] c by simp
  have i: "i < length row - 1" and e: "cur ! i = cur ! Suc i"
    using assms c merges_at_cur [of row i u sc] by simp_all
  show "fst (merge_upto row u sc (Suc i)) ! i = 2 * fst (merge_upto row u sc i) ! i"
    using c l i e by (simp add: merge_upto_Suc merge_step_def)
  show "fst (merge_upto row u sc (Suc i)) ! Suc i = 0"
    using c l i e by (simp add: merge_upto_Suc merge_step_def)
qed

lemma doubled_stays:
  assumes "merges_at row i"
  shows "fst (merge row u sc) ! i = 2 * fst (merge_upto row u sc i) ! i"
    and "fst (merge row u sc) ! Suc i = 0"
proof -
  have i: "Suc i \<le> length row - 1" using assms by (simp add: merges_at_def)
  note sp = merge_split [OF i, of u sc]
  show "fst (merge row u sc) ! i = 2 * fst (merge_upto row u sc i) ! i"
    unfolding sp using merge_fold_before [of i "Suc i" u "length row - 1" "merge_upto row u sc (Suc i)"]
      merge_after_merge(1) [OF assms, of u sc] by simp
  show "fst (merge row u sc) ! Suc i = 0"
    unfolding sp using merge_fold_zero [OF merge_after_merge(2) [OF assms, of u sc]] by simp
qed

lemma no_cascade:
  assumes z: "0 \<notin> set row" and m: "merges_at row i"
  shows "\<not> merges_at row (Suc i)"
proof
  assume n: "merges_at row (Suc i)"
  then have b: "Suc (Suc i) < length row" by (auto simp: merges_at_def)
  from n have "fst (merge_upto row False 0 (Suc i)) ! Suc i
               = fst (merge_upto row False 0 (Suc i)) ! Suc (Suc i)"
    using merges_at_cur [of row "Suc i" False 0] by simp
  then have "row ! Suc (Suc i) = 0"
    using merge_after_merge(2) [OF m, of False 0] merge_upto_later [of "Suc i" "Suc (Suc i)" row False 0]
    by simp
  with b z show False using nth_mem [OF b] by metis
qed

lemma merged_value:
  assumes z: "0 \<notin> set row" and m: "merges_at row i"
  shows "fst (merge_upto row u sc i) ! i = row ! i"
proof -
  have i: "Suc i < length row" using m by (auto simp: merges_at_def)
  have "fst (merge_upto row u sc i) ! i = row ! Suc i"
    using m merges_at_cur [of row i u sc] merge_upto_later [of i "Suc i" row u sc] by simp
  moreover have "row ! Suc i \<noteq> 0" using z nth_mem [OF i] by metis
  ultimately show ?thesis using merge_upto_here [of row u sc i] by auto
qed

lemma compress_nonzero: "0 \<notin> set (compress row)"
  by (simp add: compress_def)

lemma row_2222: "merge (compress [2, 2, 2, 2]) True sc = ([4, 0, 4, 0], sc + 8)"
  by (simp add: compress_def merge_def merge_step_def upt_rec)

section \<open>The claims about the board engine\<close>

text \<open>
  Claim C9, as the code has it: \<^verbatim>\<open>compress(row)\<close> returns the non-zero entries of
  the row in their order.  The result is never longer than the row, and it is
  shorter exactly when the row holds a zero.
\<close>

theorem compress_keeps_nonzero:
  "compress row = filter (\<lambda>x. x \<noteq> 0) row
   \<and> length (compress row) \<le> length row
   \<and> (length (compress row) < length row \<longleftrightarrow> 0 \<in> set row)"
proof -
  have "(length (filter (\<lambda>x. x \<noteq> 0) row) < length row) = (0 \<in> set row)"
    by (induction row) (auto simp: less_Suc_eq_le)
  then show ?thesis by (simp add: compress_def)
qed

theorem compress_keeps_nonzero_witness:
  "compress [2, 0, 4] = [2, 4] \<and> length (compress [2, 0, 4]) < length [2, 0, 4 :: int]
   \<and> 0 \<in> set [2, 0, 4 :: int]"
  using compress_keeps_nonzero [of "[2, 0, 4]"] by simp

text \<open>
  The claim as it was written asks for a result shorter than the row; a row
  without a zero comes back with its length.
\<close>

theorem compress_shorter_counterexample:
  "\<not> length (compress [2, 4]) < length [2, 4 :: int]"
  by (simp add: compress_def)

text \<open>
  Claim C4: \<^verbatim>\<open>move_left\<close> with scoring turns a row \<open>[2, 2, 2, 2]\<close> of a board of
  dimension 4 into \<open>[4, 4, 0, 0]\<close> and adds 8 to the score, in the iteration for
  that row and, on a board whose other rows are empty, as a whole.  In the pass of
  \<^verbatim>\<open>merge\<close> over a compressed row, as \<^verbatim>\<open>move_left\<close> runs it, a merge at
  \<open>i\<close> is never followed by a merge at \<open>i + 1\<close>, so no cell takes part in two
  merges; the cell \<open>i\<close> ends the pass with twice its value and the cell
  \<open>i + 1\<close> with zero.  On any row, the value doubled at \<open>i\<close> is the value of
  that cell at the end of the pass.
\<close>

theorem merge_without_cascade:
  "(\<forall>s moved i. i < length (board s) \<longrightarrow> board s ! i = [2, 2, 2, 2] \<longrightarrow> dim s = 4 \<longrightarrow>
      move_left_row True i (s, moved) =
        Inr (s\<lparr>board := (board s)[i := [4, 4, 0, 0]], score := score s + 8\<rparr>, True))
   \<and> (\<forall>sc. move_left True
          \<lparr>board = [[2, 2, 2, 2], [0, 0, 0, 0], [0, 0, 0, 0], [0, 0, 0, 0]], score = sc, dim = 4\<rparr>
        = Inr (True,
          \<lparr>board = [[4, 4, 0, 0], [0, 0, 0, 0], [0, 0, 0, 0], [0, 0, 0, 0]], score = sc + 8,
           dim = 4\<rparr>))
   \<and> (\<forall>row i. merges_at (compress row) i \<longrightarrow> \<not> merges_at (compress row) (Suc i))
   \<and> (\<forall>row i u sc. merges_at (compress row) i \<longrightarrow>
         fst (merge (compress row) u sc) ! i = 2 * compress row ! i
         \<and> fst (merge (compress row) u sc) ! Suc i = 0)
   \<and> (\<forall>row i u sc. merges_at row i \<longrightarrow>
         fst (merge row u sc) ! i = 2 * fst (merge_upto row u sc i) ! i
         \<and> fst (merge row u sc) ! Suc i = 0)"
proof (intro conjI allI impI)
  fix s :: "'a GameState_scheme" and moved i
  assume "i < length (board s)" "board s ! i = [2, 2, 2, 2]" "dim s = 4"
  then show "move_left_row True i (s, moved) =
      Inr (s\<lparr>board := (board s)[i := [4, 4, 0, 0]], score := score s + 8\<rparr>, True)"
    by (simp add: move_left_row_def row_2222) (simp add: compress_def numeral_2_eq_2)
next
  fix sc :: int
  have z: "merge (compress [0, 0, 0, 0]) True s = ([], s)" for s
    by (simp add: compress_def merge_def)
  have l2: "left_row 4 [2, 2, 2, 2] = [4, 4, 0, 0]"
    by (simp add: left_row_def compress_def merge_def merge_step_def upt_rec)
      (simp add: numeral_eq_Suc)
  have l0: "left_row 4 [0, 0, 0, 0] = [0, 0, 0, 0]"
    by (simp add: left_row_def compress_def merge_def) (simp add: numeral_eq_Suc)
  show "move_left True
          \<lparr>board = [[2, 2, 2, 2], [0, 0, 0, 0], [0, 0, 0, 0], [0, 0, 0, 0]], score = sc, dim = 4\<rparr>
        = Inr (True,
          \<lparr>board = [[4, 4, 0, 0], [0, 0, 0, 0], [0, 0, 0, 0], [0, 0, 0, 0]], score = sc + 8,
           dim = 4\<rparr>)"
    by (simp add: move_left_def move_left_row_eq row_2222 z l2 l0 upt_rec)
next
  fix row i assume "merges_at (compress row) i"
  then show "\<not> merges_at (compress row) (Suc i)"
    using no_cascade [OF compress_nonzero] by blast
next
  fix row i u sc assume m: "merges_at (compress row) i"
  show "fst (merge (compress row) u sc) ! i = 2 * compress row ! i"
    using doubled_stays(1) [OF m, of u sc] merged_value [OF compress_nonzero m, of u sc] by simp
  show "fst (merge (compress row) u sc) ! Suc i = 0"
    using doubled_stays(2) [OF m] .
next
  fix row i u sc assume m: "merges_at row i"
  show "fst (merge row u sc) ! i = 2 * fst (merge_upto row u sc i) ! i"
    using doubled_stays(1) [OF m] .
  show "fst (merge row u sc) ! Suc i = 0"
    using doubled_stays(2) [OF m] .
qed

theorem merge_without_cascade_witness:
  "merges_at (compress [2, 0, 2, 2, 0, 2]) 0
   \<and> \<not> merges_at (compress [2, 0, 2, 2, 0, 2]) (Suc 0)
   \<and> fst (merge (compress [2, 0, 2, 2, 0, 2]) True 0) ! 0 = 2 * compress [2, 0, 2, 2, 0, 2] ! 0
   \<and> fst (merge (compress [2, 0, 2, 2, 0, 2]) True 0) ! Suc 0 = 0
   \<and> move_left_row True 0 (\<lparr>board = [[2, 2, 2, 2]], score = 0, dim = 4\<rparr>, False)
       = Inr (\<lparr>board = [[4, 4, 0, 0]], score = 8, dim = 4\<rparr>, True)"
proof -
  let ?row = "[2, 0, 2, 2, 0, 2] :: int list"
  let ?s = "\<lparr>board = [[2, 2, 2, 2]], score = 0, dim = 4\<rparr>"
  note t = merge_without_cascade [where ?'a = unit]
  have m: "merges_at (compress ?row) 0" by code_simp
  have a: "\<not> merges_at (compress ?row) (Suc 0)"
    using t m by blast
  have b: "fst (merge (compress ?row) True 0) ! 0 = 2 * compress ?row ! 0
           \<and> fst (merge (compress ?row) True 0) ! Suc 0 = 0"
    using t m by blast
  have h: "0 < length (board ?s)" "board ?s ! 0 = [2, 2, 2, 2]" "dim ?s = 4" by simp_all
  have c: "move_left_row True 0 (?s, False)
           = Inr (?s\<lparr>board := (board ?s)[0 := [4, 4, 0, 0]], score := score ?s + 8\<rparr>, True)"
    using t h by blast
  show ?thesis using m a b c by simp
qed

text \<open>
  Claim C5: on a board of \<open>dim\<close> rows of \<open>dim\<close> cells, \<^verbatim>\<open>move_possible()\<close>
  returns without an exception, its answer is true exactly when one of the
  four moves would change the board (with either value of the scoring flag),
  and the object is as it was before the call.
\<close>

theorem move_possible_iff_some_move_changes:
  assumes "well_formed g"
  shows "\<exists>possible. move_possible g = Inr (possible, g)
           \<and> (possible \<longleftrightarrow> (\<exists>m. move_changes m update_score g))"
proof -
  have "move_possible g =
          Inr (\<exists>m \<in> set [Left, Right, Up, Down]. moved_board m (dim g) (board g) \<noteq> board g, g)"
    unfolding move_possible_def using assms by (rule move_possible_loop_eq)
  then show ?thesis
    unfolding all_moves using assms by (simp add: move_changes_eq)
qed

theorem move_possible_iff_some_move_changes_witness:
  "well_formed \<lparr>board = [[2, 4], [4, 2]], score = 0, dim = 2, goal = 2048\<rparr>
   \<and> move_possible \<lparr>board = [[2, 4], [4, 2]], score = 0, dim = 2, goal = 2048\<rparr>
       = Inr (False, \<lparr>board = [[2, 4], [4, 2]], score = 0, dim = 2, goal = 2048\<rparr>)
   \<and> \<not> (\<exists>m. move_changes m True \<lparr>board = [[2, 4], [4, 2]], score = 0, dim = 2, goal = 2048\<rparr>)"
proof -
  let ?g = "\<lparr>board = [[2, 4], [4, 2]], score = 0, dim = 2, goal = 2048\<rparr>"
  have w: "well_formed ?g" by (simp add: well_formed_def square_def)
  have e: "move_possible ?g = Inr (False, ?g)" by code_simp
  from move_possible_iff_some_move_changes [OF w, of True] e w show ?thesis by simp
qed

text \<open>
  Claim C8: on a snapshot of \<open>dim\<close> rows of \<open>dim\<close> cells, \<^verbatim>\<open>valid_moves()\<close>
  returns the directions whose move would change the board, and no other; the
  snapshot, its board and its score with it, is as it was before the call.
\<close>

theorem valid_moves_exact:
  assumes "well_formed s"
  shows "\<exists>moves. valid_moves s = Inr (moves, s)
           \<and> set moves = {m. move_changes m update_score s}"
proof -
  have "set (filter (\<lambda>m. moved_board m (dim s) (board s) \<noteq> board s) [Left, Right, Up, Down])
        = {m. move_changes m update_score s}"
    unfolding set_filter all_moves using assms by (simp add: move_changes_eq)
  then show ?thesis using valid_moves_eq [OF assms] by simp
qed

theorem valid_moves_exact_witness:
  "well_formed \<lparr>board = [[2, 4], [4, 0]], score = 6, dim = 2\<rparr>
   \<and> valid_moves \<lparr>board = [[2, 4], [4, 0]], score = 6, dim = 2\<rparr>
       = Inr ([Right, Down], \<lparr>board = [[2, 4], [4, 0]], score = 6, dim = 2\<rparr>)
   \<and> {m. move_changes m True \<lparr>board = [[2, 4], [4, 0]], score = 6, dim = 2\<rparr>} = {Right, Down}"
proof -
  let ?s = "\<lparr>board = [[2, 4], [4, 0]], score = 6, dim = 2\<rparr>"
  have w: "well_formed ?s" by (simp add: well_formed_def square_def)
  have e: "valid_moves ?s = Inr ([Right, Down], ?s)" by code_simp
  from valid_moves_exact [OF w, of True] e w show ?thesis by auto
qed

text \<open>
  Claim C10: on a board of \<open>dim\<close> rows of \<open>dim\<close> cells, with either value of the
  scoring flag, each of \<^verbatim>\<open>move_left\<close>, \<^verbatim>\<open>move_right\<close>, \<^verbatim>\<open>move_up\<close> and
  \<^verbatim>\<open>move_down\<close> returns, and the sum of all cells of the board it leaves is the
  sum of all cells of the board it found.
\<close>

theorem moves_preserve_board_sum:
  assumes "well_formed s"
  shows "(\<exists>moved s'. move_left update_score s = Inr (moved, s')
            \<and> board_sum (board s') = board_sum (board s))
       \<and> (\<exists>moved s'. move_right update_score s = Inr (moved, s')
            \<and> board_sum (board s') = board_sum (board s))
       \<and> (\<exists>moved s'. move_up update_score s = Inr (moved, s')
            \<and> board_sum (board s') = board_sum (board s))
       \<and> (\<exists>moved s'. move_down update_score s = Inr (moved, s')
            \<and> board_sum (board s') = board_sum (board s))"
proof -
  have sq: "square (nat (dim s)) (board s)" using assms by (simp add: well_formed_def)
  have "\<exists>moved s'. move_func m update_score s = Inr (moved, s')
          \<and> board_sum (board s') = board_sum (board s)" for m
    using move_func_eq [OF assms, of m update_score] moved_board_sum [OF sq, of m] by auto
  from this [of Left] this [of Right] this [of Up] this [of Down]
  show ?thesis by simp
qed

theorem moves_preserve_board_sum_witness:
  "well_formed \<lparr>board = [[2, 2], [4, 0]], score = 0, dim = 2\<rparr>
   \<and> move_left True \<lparr>board = [[2, 2], [4, 0]], score = 0, dim = 2\<rparr>
       = Inr (True, \<lparr>board = [[4, 0], [4, 0]], score = 4, dim = 2\<rparr>)
   \<and> board_sum [[4, 0], [4, 0]] = board_sum [[2, 2], [4, 0]]"
proof -
  let ?s = "\<lparr>board = [[2, 2], [4, 0]], score = 0, dim = 2\<rparr>"
  have w: "well_formed ?s" by (simp add: well_formed_def square_def)
  have e: "move_left True ?s = Inr (True, \<lparr>board = [[4, 0], [4, 0]], score = 4, dim = 2\<rparr>)"
    by code_simp
  from moves_preserve_board_sum [OF w, of True] e w show ?thesis by auto
qed

section \<open>Properties of the agent\<close>

lemma py_max_Max: "xs \<noteq> [] \<Longrightarrow> py_max xs = Inr (Max (set xs))"
  by (cases xs) (simp_all add: Max.set_eq_fold [symmetric])

lemma row_maxima_eq:
  "[] \<notin> set rows \<Longrightarrow> row_maxima rows = Inr (map (\<lambda>row. Max (set row)) rows)"
  by (induction rows) (auto simp: py_max_Max)

lemma max_of_maxima:
  "rows \<noteq> [] \<Longrightarrow> [] \<notin> set rows \<Longrightarrow>
   Max (set (map (\<lambda>row. Max (set row)) rows)) = Max (set (concat rows))"
proof (induction rows)
  case Nil
  then show ?case by simp
next
  case (Cons row rows)
  show ?case
  proof (cases "rows = []")
    case True
    then show ?thesis by simp
  next
    case False
    then obtain r where "r \<in> set rows" by (cases rows) auto
    moreover have "r \<noteq> []" if "r \<in> set rows" for r using Cons.prems that by auto
    ultimately have ne: "set (concat rows) \<noteq> {}" by fastforce
    have ih: "Max (set (map (\<lambda>row. Max (set row)) rows)) = Max (set (concat rows))"
      using Cons.IH False Cons.prems by simp
    have r: "set row \<noteq> {}" using Cons.prems by auto
    have "Max (set (map (\<lambda>row. Max (set row)) (row # rows)))
          = max (Max (set row)) (Max (set (map (\<lambda>row. Max (set row)) rows)))"
      using False by simp
    also have "\<dots> = Max (set row \<union> set (concat rows))"
      unfolding ih using r ne by (simp add: Max.union)
    finally show ?thesis by simp
  qed
qed

lemma largest_in_corner_eq:
  assumes "board s \<noteq> []" "[] \<notin> set (board s)"
  shows "largest_in_corner s = Inr (Max (set (concat (board s))) = board s ! 0 ! 0)"
proof -
  have "py_max (map (\<lambda>row. Max (set row)) (board s)) = Inr (Max (set (concat (board s))))"
    using assms py_max_Max [of "map (\<lambda>row. Max (set row)) (board s)"] max_of_maxima [OF assms]
    by (simp only: map_is_Nil_conv simp_thms)
  then show ?thesis
    using assms by (simp add: largest_in_corner_def row_maxima_eq)
qed

lemma key_eq_iff: "key_eq k k' = (k = k')"
  by (cases k; cases k') (auto simp: key_eq_def features_eq_def object_eq_def GameStateFeatures.expand)

lemma dict_get_set:
  "dict_get (dict_set t k v) k' d = (if k = k' then v else dict_get t k' d)"
  by (induction t) (auto simp: key_eq_iff)

lemma getQValue_learn:
  "getQValue (learn agent st action reward nextState) st action =
     (1 - alpha agent) * getQValue agent st action
     + alpha agent * (reward + gamma agent * maxQValue agent nextState)"
  by (simp add: getQValue_def learn_def Let_def dict_get_set)

lemma getCount_learn:
  "getCount (learn agent st action reward nextState) st action = getCount agent st action + 1"
  by (simp add: getCount_def learn_def Let_def dict_get_set)

lemma learn_params:
  "alpha (learn a st action reward nextState) = alpha a"
  "epsilon (learn a st action reward nextState) = epsilon a"
  by (simp_all add: learn_def Let_def)

lemma updateCount_params:
  "alpha (updateCount a st action) = alpha a"
  "epsilon (updateCount a st action) = epsilon a"
  by (simp_all add: updateCount_def split: prod.splits)

lemma learn_previous_params:
  "learn_previous h r a = Inr b \<Longrightarrow> alpha b = alpha a \<and> epsilon b = epsilon a"
  by (auto simp: learn_previous_def Let_def learn_params split: if_splits sum.splits)

lemma get_move_params:
  "get_move h r u pick a = Inr (m, b, h') \<Longrightarrow> alpha b = alpha a \<and> epsilon b = epsilon a"
  by (auto simp: get_move_def Let_def updateCount_params
      split: sum.splits prod.splits if_splits dest: learn_previous_params)

lemma final_frozen:
  "final h r a = Inr b \<Longrightarrow> alpha a = 0 \<and> epsilon a = 0 \<Longrightarrow> alpha b = 0 \<and> epsilon b = 0"
  by (auto simp: final_def Let_def split: sum.splits if_splits dest: learn_previous_params)

lemma final_freezes:
  "final h r a = Inr b \<Longrightarrow> numTraining a \<le> episodesSoFar a + 1 \<Longrightarrow> alpha b = 0 \<and> epsilon b = 0"
proof -
  assume f: "final h r a = Inr b" and n: "numTraining a \<le> episodesSoFar a + 1"
  from f obtain a1 where l: "learn_previous h r a = Inr a1"
    by (auto simp: final_def split: sum.splits)
  have "numTraining a1 = numTraining a" "episodesSoFar a1 = episodesSoFar a"
    using l by (auto simp: learn_previous_def Let_def learn_def split: if_splits sum.splits)
  with f l n show ?thesis by (auto simp: final_def Let_def)
qed

lemma frozen_stays:
  "agent_calls a b \<Longrightarrow> alpha a = 0 \<and> epsilon a = 0 \<Longrightarrow> alpha b = 0 \<and> epsilon b = 0"
proof (induction rule: agent_calls.induct)
  case (no_call a)
  then show ?case by simp
next
  case (call_get_move a b h r u pick m c h')
  then show ?case using get_move_params [of h r u pick b m c h'] by simp
next
  case (call_final a b h r c)
  then show ?case using final_frozen [of h r b c] by simp
next
  case (call_learn a b st action reward nextState)
  then show ?case by (simp add: learn_params)
next
  case (call_updateCount a b st action)
  then show ?case by (simp add: updateCount_params)
qed

lemma getQValue_learn_frozen:
  "alpha a = 0 \<Longrightarrow> getQValue (learn a st action reward nextState) st' action' = getQValue a st' action'"
  by (simp add: getQValue_def learn_def Let_def dict_get_set)

lemma getCount_updateCount:
  "getCount (updateCount a st action) st action = getCount a st action + 1"
  by (simp add: getCount_def updateCount_def dict_get_set split: prod.splits)

lemma get_move_frozen_pick:
  assumes "epsilon a = 0" and "0 \<le> u"
  shows "get_move h r u pick a = get_move h r u pick' a"
proof -
  have "choose_action b sf moves u pick = choose_action b sf moves u pick'"
    if "learn_previous h' r a = Inr b" for b sf moves h'
    using learn_previous_params [OF that] assms by (simp add: choose_action_def explores_def)
  then show ?thesis
    by (auto simp: get_move_def Let_def split: sum.splits prod.splits)
qed

section \<open>The claims about the agent and the turn\<close>

text \<open>
  Claim C1, evaluated on the code: a store with two \<^verbatim>\<open>GameState\<close> objects, at
  the addresses 0 and 1, built from the same board, score and dimension.  Their
  \<^verbatim>\<open>GameStateFeatures\<close> are not equal and have different hashes, and what
  \<^verbatim>\<open>learn\<close> stored under the first is not what \<^verbatim>\<open>getQValue\<close>, \<^verbatim>\<open>getCount\<close>
  and \<^verbatim>\<open>maxQValue\<close> return for the second: they return their defaults.
\<close>

theorem equal_snapshots_are_different_keys:
  "((\<lambda>r. GameState_init [] 0 0)
      (0 := GameState_init [[2, 0], [0, 2]] 4 2, 1 := GameState_init [[2, 0], [0, 2]] 4 2)) 0
   = ((\<lambda>r. GameState_init [] 0 0)
      (0 := GameState_init [[2, 0], [0, 2]] 4 2, 1 := GameState_init [[2, 0], [0, 2]] 4 2)) 1
   \<and> \<not> features_eq (GameStateFeatures 0) (GameStateFeatures 1)
   \<and> features_hash (GameStateFeatures 0) \<noteq> features_hash (GameStateFeatures 1)
   \<and> getQValue (learn init_agent (GameStateFeatures 0) Left 10 (GameStateFeatures 0))
         (GameStateFeatures 0) Left = 2
   \<and> getQValue (learn init_agent (GameStateFeatures 0) Left 10 (GameStateFeatures 0))
         (GameStateFeatures 1) Left = 0
   \<and> getCount (learn init_agent (GameStateFeatures 0) Left 10 (GameStateFeatures 0))
         (GameStateFeatures 0) Left = 1
   \<and> getCount (learn init_agent (GameStateFeatures 0) Left 10 (GameStateFeatures 0))
         (GameStateFeatures 1) Left = 0
   \<and> maxQValue (learn init_agent (GameStateFeatures 0) Left 10 (GameStateFeatures 0))
         (GameStateFeatures 0) = 2
   \<and> maxQValue (learn init_agent (GameStateFeatures 0) Left 10 (GameStateFeatures 0))
         (GameStateFeatures 1) = 0"
  by (simp add: getQValue_def getCount_def maxQValue_def learn_def init_agent_def key_eq_def
      features_eq_def features_hash_def object_eq_def object_hash_def)

text \<open>
  Claim C2, as the code has it: \<^verbatim>\<open>learn(state, action, reward, nextState)\<close>
  sets the stored value of \<open>(state, action)\<close> to
  \<open>(1 - \<alpha>) \<cdot> Q(state, action) + \<alpha> \<cdot> (reward + \<gamma> \<cdot> maxQ(nextState))\<close>, both
  \<open>Q\<close> and \<open>maxQ\<close> read before the call, and adds one to the visit count of
  \<open>(state, action)\<close>.
\<close>

theorem learn_sets_value_and_counts:
  "getQValue (learn agent st action reward nextState) st action =
     (1 - alpha agent) * getQValue agent st action
     + alpha agent * (reward + gamma agent * maxQValue agent nextState)
   \<and> getCount (learn agent st action reward nextState) st action
       = getCount agent st action + 1"
  by (simp add: getQValue_learn getCount_learn)

text \<open>
  The claim as it was written has the visit count unchanged by \<^verbatim>\<open>learn\<close>; on
  a new agent the count of the pair goes from 0 to 1.
\<close>

theorem learn_count_counterexample:
  "getCount (learn init_agent (GameStateFeatures 0) Left 10 (GameStateFeatures 1))
      (GameStateFeatures 0) Left = 1
   \<and> getCount init_agent (GameStateFeatures 0) Left = 0"
  by (simp add: getCount_def learn_def init_agent_def key_eq_def features_eq_def object_eq_def)

text \<open>
  Claim C3: for an end state whose board has a row and no empty row,
  \<^verbatim>\<open>computeReward(start, end)\<close> is the score increase, plus ten for every zero
  cell of the end board, plus the corner bonus: the start score and half the
  score increase when the largest value of the end board is the value of the
  cell \<open>(0, 0)\<close>, and nothing otherwise.
\<close>

theorem computeReward_formula:
  assumes "board endState \<noteq> []" and "[] \<notin> set (board endState)"
  shows "computeReward startState endState =
           Inr (real_of_int (score endState - score startState)
                + 10 * real (length (filter (\<lambda>cell. cell = 0) (concat (board endState))))
                + (if Max (set (concat (board endState))) = board endState ! 0 ! 0
                   then real_of_int (score startState)
                        + 0.5 * real_of_int (score endState - score startState)
                   else 0))"
  using assms by (simp add: computeReward_def largest_in_corner_eq Let_def)

theorem computeReward_formula_witness:
  "board \<lparr>board = [[8, 0], [2, 4]], score = 12, dim = 2\<rparr> \<noteq> []
   \<and> [] \<notin> set (board \<lparr>board = [[8, 0], [2, 4]], score = 12, dim = 2\<rparr>)
   \<and> computeReward \<lparr>board = [[4, 4], [2, 4]], score = 4, dim = 2\<rparr>
        \<lparr>board = [[8, 0], [2, 4]], score = 12, dim = 2\<rparr> = Inr 26"
  using computeReward_formula [of "\<lparr>board = [[8, 0], [2, 4]], score = 12, dim = 2\<rparr>"
      "\<lparr>board = [[4, 4], [2, 4]], score = 4, dim = 2\<rparr>"]
  by simp

text \<open>
  Claim C6: when \<^verbatim>\<open>final\<close> brings the episode counter to \<^verbatim>\<open>numTraining\<close> or
  beyond, it leaves \<open>\<alpha>\<close> and \<open>\<epsilon>\<close> at 0, and they are 0 after any further
  calls of \<^verbatim>\<open>get_move\<close>, \<^verbatim>\<open>final\<close>, \<^verbatim>\<open>learn\<close> and \<^verbatim>\<open>updateCount\<close>.  From
  then on no value of \<^verbatim>\<open>random.random()\<close> takes the exploration branch, so
  \<^verbatim>\<open>get_move\<close> does not depend on what \<^verbatim>\<open>random.choice\<close> would draw; every
  \<^verbatim>\<open>learn\<close> leaves every stored Q-value as it was, while \<^verbatim>\<open>learn\<close> and
  \<^verbatim>\<open>updateCount\<close> still add one to the visit count.
\<close>

theorem frozen_after_training:
  assumes "final h r agent = Inr frozen"
    and "numTraining agent \<le> episodesSoFar agent + 1"
    and "agent_calls frozen later"
  shows "alpha later = 0 \<and> epsilon later = 0
    \<and> (\<forall>u \<ge> 0. \<not> explores later u)
    \<and> (\<forall>u \<ge> 0. \<forall>stateFeatures moves pick.
          choose_action later stateFeatures moves u pick = greedy_action later stateFeatures moves)
    \<and> (\<forall>u \<ge> 0. \<forall>h' r' pick pick'.
          get_move h' r' u pick later = get_move h' r' u pick' later)
    \<and> (\<forall>st action reward nextState st' action'.
          getQValue (learn later st action reward nextState) st' action' = getQValue later st' action')
    \<and> (\<forall>st action reward nextState.
          getCount (learn later st action reward nextState) st action = getCount later st action + 1)
    \<and> (\<forall>st action.
          getCount (updateCount later st action) st action = getCount later st action + 1)"
proof -
  have z: "alpha later = 0 \<and> epsilon later = 0"
    using frozen_stays [OF assms(3)] final_freezes [OF assms(1,2)] by simp
  then have e: "\<not> explores later u" if "0 \<le> u" for u using that by (simp add: explores_def)
  have g: "get_move h' r' u pick later = get_move h' r' u pick' later" if "0 \<le> u" for u h' r' pick pick'
    using z that by (simp add: get_move_frozen_pick)
  show ?thesis
    using z e g
    by (simp add: choose_action_def getQValue_learn_frozen getCount_learn getCount_updateCount)
qed

theorem frozen_after_training_witness:
  "final (\<lambda>r. \<lparr>board = [[2, 4], [4, 0]], score = 6, dim = 2\<rparr>) 0 init_agent
     = Inr \<lparr>alpha = 0, epsilon = 0, gamma = 0.8, maxAttempts = 30, numTraining = 0,
            episodesSoFar = 1, qTable = [], previousState = [], previousAction = []\<rparr>
   \<and> numTraining init_agent \<le> episodesSoFar init_agent + 1
   \<and> agent_calls
        \<lparr>alpha = 0, epsilon = 0, gamma = 0.8, maxAttempts = 30, numTraining = 0,
         episodesSoFar = 1, qTable = [], previousState = [], previousAction = []\<rparr>
        \<lparr>alpha = 0, epsilon = 0, gamma = 0.8, maxAttempts = 30, numTraining = 0,
         episodesSoFar = 1, qTable = [((GameStateFeatures 0, Right), (0, 1))],
         previousState = [0], previousAction = [Right]\<rparr>
   \<and> \<not> explores
        \<lparr>alpha = 0, epsilon = 0, gamma = 0.8, maxAttempts = 30, numTraining = 0,
         episodesSoFar = 1, qTable = [((GameStateFeatures 0, Right), (0, 1))],
         previousState = [0], previousAction = [Right]\<rparr> 0
   \<and> getCount (learn
        \<lparr>alpha = 0, epsilon = 0, gamma = 0.8, maxAttempts = 30, numTraining = 0,
         episodesSoFar = 1, qTable = [((GameStateFeatures 0, Right), (0, 1))],
         previousState = [0], previousAction = [Right]\<rparr>
        (GameStateFeatures 0) Right 50 (GameStateFeatures 1)) (GameStateFeatures 0) Right = 2"
proof -
  let ?s = "\<lparr>board = [[2, 4], [4, 0]], score = 6, dim = 2\<rparr>"
  let ?h = "\<lambda>r::ref. ?s"
  let ?frozen = "\<lparr>alpha = 0, epsilon = 0, gamma = 0.8, maxAttempts = 30, numTraining = 0,
         episodesSoFar = 1, qTable = [], previousState = [], previousAction = []\<rparr>"
  let ?later = "\<lparr>alpha = 0, epsilon = 0, gamma = 0.8, maxAttempts = 30, numTraining = 0,
         episodesSoFar = 1, qTable = [((GameStateFeatures 0, Right), (0, 1))],
         previousState = [0], previousAction = [Right]\<rparr>"
  have f: "final ?h 0 init_agent = Inr ?frozen"
    by (simp add: final_def learn_previous_def init_agent_def)
  have n: "numTraining init_agent \<le> episodesSoFar init_agent + 1"
    by (simp add: init_agent_def)
  have v: "valid_moves ?s = Inr ([Right, Down], ?s)" by code_simp
  have gm: "get_move ?h 0 (1 / 2) 0 ?frozen = Inr (Some Right, ?later, ?h(0 := ?s))"
    by (simp add: get_move_def v learn_previous_def choose_action_def explores_def
        greedy_action_def explorationFn_def getQValue_def getCount_def updateCount_def)
  have c: "agent_calls ?frozen ?later"
    using call_get_move [OF no_call gm] .
  note t = frozen_after_training [OF f n c]
  have e: "\<not> explores ?later 0" using t by simp
  have "getCount ?later (GameStateFeatures 0) Right = 1"
    by (simp add: getCount_def key_eq_def features_eq_def object_eq_def)
  with t have l: "getCount (learn ?later (GameStateFeatures 0) Right 50 (GameStateFeatures 1))
                    (GameStateFeatures 0) Right = 2"
    by simp
  show ?thesis using f n c e l by simp
qed

text \<open>
  Claim C7: when \<^verbatim>\<open>valid_moves()\<close> returns the empty list, \<^verbatim>\<open>get_move\<close> of the
  Q-learning agent returns \<^verbatim>\<open>None\<close>, raises nothing and leaves the agent as it
  was.  A turn of \<^verbatim>\<open>play\<close> whose agent answers \<^verbatim>\<open>None\<close> leaves the loop
  through the branch of the message about no valid moves, with the game
  untouched; an answer that moves nothing leaves it through the other branch,
  of the invalid move.  Both are results of the turn, not exceptions.
\<close>

theorem no_move_ends_the_game:
  "(\<forall>h game_state u pick agent gs.
      valid_moves (h game_state) = Inr ([], gs) \<longrightarrow>
      get_move h game_state u pick agent = Inr (None, agent, h(game_state := gs)))
   \<and> (\<forall>agent_get_move h r agent pick tile g agent' h'.
      agent_get_move (h(r := snapshot g)) r agent = Inr (None, agent', h') \<longrightarrow>
      play_turn agent_get_move h r agent pick tile g = Inr (Stop_NoValidMoves, g, agent', h'))
   \<and> (\<forall>agent_get_move h r agent pick tile g agent' h' m g'.
      agent_get_move (h(r := snapshot g)) r agent = Inr (Some m, agent', h') \<longrightarrow>
      move_func m True g = Inr (False, g') \<longrightarrow>
      play_turn agent_get_move h r agent pick tile g = Inr (Stop_InvalidMove, g', agent', h'))
   \<and> Stop_NoValidMoves \<noteq> Stop_InvalidMove"
  by (simp add: get_move_def play_turn_def)

theorem no_move_ends_the_game_witness:
  "valid_moves (snapshot \<lparr>board = [[2, 4], [4, 2]], score = 0, dim = 2, goal = 2048\<rparr>)
     = Inr ([], \<lparr>board = [[2, 4], [4, 2]], score = 0, dim = 2\<rparr>)
   \<and> play_turn (\<lambda>h r a. get_move h r (1 / 2) 0 a)
        (\<lambda>r. \<lparr>board = [], score = 0, dim = 0\<rparr>) 7 init_agent 0 2
        \<lparr>board = [[2, 4], [4, 2]], score = 0, dim = 2, goal = 2048\<rparr>
     = Inr (Stop_NoValidMoves, \<lparr>board = [[2, 4], [4, 2]], score = 0, dim = 2, goal = 2048\<rparr>,
            init_agent,
            (\<lambda>r. \<lparr>board = [], score = 0, dim = 0\<rparr>)
              (7 := \<lparr>board = [[2, 4], [4, 2]], score = 0, dim = 2\<rparr>))
   \<and> move_func Left True \<lparr>board = [[2, 4], [4, 0]], score = 0, dim = 2, goal = 2048\<rparr>
     = Inr (False, \<lparr>board = [[2, 4], [4, 0]], score = 0, dim = 2, goal = 2048\<rparr>)
   \<and> play_turn (\<lambda>h r a. Inr (Some Left, a, h))
        (\<lambda>r. \<lparr>board = [], score = 0, dim = 0\<rparr>) 7 () 0 2
        \<lparr>board = [[2, 4], [4, 0]], score = 0, dim = 2, goal = 2048\<rparr>
     = Inr (Stop_InvalidMove, \<lparr>board = [[2, 4], [4, 0]], score = 0, dim = 2, goal = 2048\<rparr>,
            (),
            (\<lambda>r. \<lparr>board = [], score = 0, dim = 0\<rparr>)
              (7 := \<lparr>board = [[2, 4], [4, 0]], score = 0, dim = 2\<rparr>))"
proof -
  let ?g = "\<lparr>board = [[2, 4], [4, 2]], score = 0, dim = 2, goal = 2048\<rparr>"
  let ?s = "\<lparr>board = [[2, 4], [4, 2]], score = 0, dim = 2\<rparr>"
  let ?g' = "\<lparr>board = [[2, 4], [4, 0]], score = 0, dim = 2, goal = 2048\<rparr>"
  let ?s' = "\<lparr>board = [[2, 4], [4, 0]], score = 0, dim = 2\<rparr>"
  let ?h = "\<lambda>r::ref. \<lparr>board = [], score = 0, dim = 0\<rparr>"
  note t = no_move_ends_the_game [where ?'a = QLearnAgent]
  note t' = no_move_ends_the_game [where ?'a = unit]
  have sn: "snapshot ?g = ?s" "snapshot ?g' = ?s'" by (simp_all add: snapshot_def GameState_init_def)
  have v: "valid_moves ?s = Inr ([], ?s)" by code_simp
  then have v': "valid_moves ((?h(7 := snapshot ?g)) 7) = Inr ([], ?s)" by (simp add: sn)
  have gm: "get_move (?h(7 := snapshot ?g)) 7 (1 / 2) 0 init_agent
            = Inr (None, init_agent, (?h(7 := snapshot ?g))(7 := ?s))"
    using t [THEN conjunct1, rule_format,
        where h = "?h(7 := snapshot ?g)" and game_state = 7, OF v'] .
  have p: "play_turn (\<lambda>h r a. get_move h r (1 / 2) 0 a) ?h 7 init_agent 0 2 ?g
           = Inr (Stop_NoValidMoves, ?g, init_agent, (?h(7 := snapshot ?g))(7 := ?s))"
    using t [THEN conjunct2, THEN conjunct1, rule_format,
        where agent_get_move = "\<lambda>h r a. get_move h r (1 / 2) 0 a" and h = ?h and r = 7
          and g = ?g, OF gm] .
  have ml: "move_func Left True ?g' = Inr (False, ?g')" by code_simp
  have st: "(\<lambda>h r a. Inr (Some Left, a, h)) (?h(7 := snapshot ?g')) 7 ()
            = (Inr (Some Left, (), ?h(7 := snapshot ?g')) :: py_error + (Move option \<times> unit \<times> heap))"
    by simp
  have q: "play_turn (\<lambda>h r a. Inr (Some Left, a, h)) ?h 7 () 0 2 ?g'
           = Inr (Stop_InvalidMove, ?g', (), ?h(7 := snapshot ?g'))"
    using t' [THEN conjunct2, THEN conjunct2, THEN conjunct1, rule_format,
        where agent_get_move = "\<lambda>h r a. Inr (Some Left, a, h)" and h = ?h and r = 7
          and g = ?g', OF st ml] .
  show ?thesis using v p ml q by (simp add: sn)
qed

end
